theory Spec2Isabelle
  imports Main "HOL-Library.AList"
begin

section \<open>Dependency deduplication (package provider)\<close>

text \<open>
  A dependency record, with the fields the deduplication reads and writes. The
  repository's tests build records from \<open>Name\<close>, \<open>Version\<close> and \<open>Indirect\<close>;
  the identity also reads \<open>ResolvedIdentifier\<close>.
\<close>

record Dep =
  Name :: string
  Version :: string
  ResolvedIdentifier :: string
  Indirect :: bool

text \<open>
  The identity key of a record, as the specification defines it: the concatenation of
  \<open>Name\<close>, \<open>Version\<close> and \<open>ResolvedIdentifier\<close>
  (\<^verbatim>\<open>id := dep.Name + dep.Version + dep.ResolvedIdentifier\<close> in the inlined copy
  of the test file). Records whose three components differ but concatenate to the same
  string have one identity.
\<close>

definition identity :: "Dep \<Rightarrow> string" where
  "identity dep = Name dep @ Version dep @ ResolvedIdentifier dep"

text \<open>
  The state of the loop over one file's records: the output sequence of this file and
  the two lookup tables from identity key to a position in that output sequence.
\<close>

record dedup_state =
  deduped :: "Dep list"
  directIndexOf :: "string \<rightharpoonup> nat"
  indirectIndexOf :: "string \<rightharpoonup> nat"

definition dedup_init :: dedup_state where
  "dedup_init = \<lparr>deduped = [], directIndexOf = Map.empty, indirectIndexOf = Map.empty\<rparr>"

text \<open>
  Modelled from the spec: the body of \<open>deduplicateDependencies\<close> (provider package),
  which is not among the sources; only its test and an inlined copy of its former,
  defective version are. One iteration of the loop over a file's records, after section
  4.1 of the specification: skip when a direct entry of the identity is recorded; upgrade
  the recorded output entry when an indirect entry is recorded and the current record is
  direct; otherwise append and record the position the record now occupies in this
  file's output sequence. Records are values, as in the data model of the specification.
  The recorded position is a valid index of the output sequence in every state the loop
  reaches (lemma \<open>dedup_positions_in_range\<close> below), so the upgrade never indexes out
  of range.
\<close>

definition dedup_step :: "dedup_state \<Rightarrow> Dep \<Rightarrow> dedup_state" where
  "dedup_step st dep =
     (let id = identity dep in
      case directIndexOf st id of
        Some _ \<Rightarrow> st
      | None \<Rightarrow>
         (case indirectIndexOf st id of
            Some i \<Rightarrow>
              if \<not> Indirect dep
              then st\<lparr>deduped := (deduped st)[i := (deduped st ! i)\<lparr>Indirect := False\<rparr>],
                      directIndexOf := (directIndexOf st)(id \<mapsto> i)\<rparr>
              else st
          | None \<Rightarrow>
              (let pos = length (deduped st) in
               if Indirect dep
               then st\<lparr>deduped := deduped st @ [dep],
                       indirectIndexOf := (indirectIndexOf st)(id \<mapsto> pos)\<rparr>
               else st\<lparr>deduped := deduped st @ [dep],
                       directIndexOf := (directIndexOf st)(id \<mapsto> pos)\<rparr>)))"

text \<open>
  Modelled from the spec: the loop of \<open>deduplicateDependencies\<close> over the records of
  one file, in their original order, from an empty output sequence and empty tables.
\<close>

definition dedup_file :: "Dep list \<Rightarrow> Dep list" where
  "dedup_file deps = deduped (foldl dedup_step dedup_init deps)"

text \<open>
  Modelled from the spec: \<open>deduplicateDependencies\<close>, which treats every file key of
  the input map independently and returns the map of output sequences.
\<close>

definition deduplicateDependencies :: "(string \<rightharpoonup> Dep list) \<Rightarrow> (string \<rightharpoonup> Dep list)" where
  "deduplicateDependencies dependencies = (\<lambda>uri. map_option dedup_file (dependencies uri))"

text \<open>
  The distinct identities of a sequence of records, in the order of their first
  occurrence.
\<close>

definition distinct_identities :: "Dep list \<Rightarrow> string list" where
  "distinct_identities deps = rev (remdups (rev (map identity deps)))"

text \<open>
  The invariant of the loop after the records \<open>deps\<close> have been processed: the output
  holds one record per distinct identity in the order of first occurrence, every recorded
  position points at the output record of its identity, every identity seen is recorded
  in one of the tables, and an output record is indirect exactly when every occurrence
  of its identity so far was indirect.
\<close>

definition tables_inv :: "Dep list \<Rightarrow> Dep list \<Rightarrow> (string \<rightharpoonup> nat) \<Rightarrow> (string \<rightharpoonup> nat) \<Rightarrow> bool" where
  "tables_inv deps out dir ind \<longleftrightarrow>
     map identity out = distinct_identities deps
   \<and> (\<forall>k i. dir k = Some i \<longrightarrow> i < length out \<and> identity (out ! i) = k \<and> \<not> Indirect (out ! i))
   \<and> (\<forall>k i. ind k = Some i \<longrightarrow>
        i < length out \<and> identity (out ! i) = k \<and> (dir k = None \<longrightarrow> Indirect (out ! i)))
   \<and> (\<forall>k. k \<in> identity ` set deps \<longrightarrow> dir k \<noteq> None \<or> ind k \<noteq> None)
   \<and> (\<forall>i < length out.
        Indirect (out ! i) \<longleftrightarrow> (\<forall>x \<in> set deps. identity x = identity (out ! i) \<longrightarrow> Indirect x))"

definition dedup_inv :: "Dep list \<Rightarrow> dedup_state \<Rightarrow> bool" where
  "dedup_inv deps st = tables_inv deps (deduped st) (directIndexOf st) (indirectIndexOf st)"

text \<open>
  The input of the repository's test \<open>TestDeduplicateDependencies_UpgradeIndirectToDirect\<close>.
\<close>

definition libA :: Dep where
  "libA = \<lparr>Name = ''libA'', Version = ''1.0'', ResolvedIdentifier = [], Indirect = False\<rparr>"

definition libB :: Dep where
  "libB = \<lparr>Name = ''libB'', Version = ''2.0'', ResolvedIdentifier = [], Indirect = True\<rparr>"

definition libC :: Dep where
  "libC = \<lparr>Name = ''libC'', Version = ''3.0'', ResolvedIdentifier = [], Indirect = False\<rparr>"

definition pom :: "string \<rightharpoonup> Dep list" where
  "pom = [''file:///test/pom.xml'' \<mapsto> [libA, libB, libC, libB\<lparr>Indirect := False\<rparr>]]"

section \<open>Provider configuration normalization (package provider)\<close>

text \<open>
  A key of a \<^verbatim>\<open>map[interface{}]interface{}\<close> is any comparable value; the
  normalization only asks whether its runtime type is \<^verbatim>\<open>string\<close>.
\<close>

datatype key = StringKey string | IntKey int | BoolKey bool

text \<open>
  A raw configuration node: a value that is not a raw map (numbers, strings, booleans and
  sequences are opaque to the normalization, also when a sequence holds maps), or a raw
  map, given by its entries. A Go map has no order: the list is the order in which
  \<^verbatim>\<open>range\<close> happens to visit the entries, and every order is a list.
\<close>

datatype 'v raw = Value 'v | RawMap "(key \<times> 'v raw) list"

text \<open>
  The output maps are objects with identity. A store holds them: an address is an index
  into the store, a \<^verbatim>\<open>map[string]interface{}\<close> is the association list at its
  address, and a value stored in a map is an opaque value or the address of a map.
\<close>

datatype 'v canonical = CValue 'v | MapRef nat

type_synonym 'v heap = "(string \<times> 'v canonical) list list"

datatype config_error = KeyTypeError string

fun type_name :: "key \<Rightarrow> string" where
  "type_name (StringKey _) = ''string''"
| "type_name (IntKey _) = ''int''"
| "type_name (BoolKey _) = ''bool''"

text \<open>The assignment \<^verbatim>\<open>m[s] = v\<close> to the map at address \<open>a\<close>.\<close>

definition store :: "'v heap \<Rightarrow> nat \<Rightarrow> string \<Rightarrow> 'v canonical \<Rightarrow> 'v heap" where
  "store h a s v = h[a := AList.update s v (h ! a)]"

text \<open>
  Modelled from the spec: \<open>validateUpdateInternalProviderConfig\<close> (provider package),
  which is not among the sources; only its test and an inlined copy of its former,
  defective version are. After section 4.2 of the specification: a fresh output map is
  created (\<open>new\<close>, the next free address); for each entry the key must be a string, else
  the call fails with a \<open>KeyTypeError\<close> naming the key's runtime type and returns no
  map; a value that is a raw map is normalized recursively into its own new map, which
  is stored under the key in the caller's map; any other value is stored unchanged; the
  address of the output map is returned.
\<close>

fun validateUpdateInternalProviderConfig ::
    "(key \<times> 'v raw) list \<Rightarrow> 'v heap \<Rightarrow> (config_error + nat) \<times> 'v heap"
  and range_old :: "nat \<Rightarrow> (key \<times> 'v raw) list \<Rightarrow> 'v heap \<Rightarrow> (config_error + nat) \<times> 'v heap"
where
  "validateUpdateInternalProviderConfig old h = range_old (length h) old (h @ [[]])"
| "range_old new [] h = (Inr new, h)"
| "range_old new ((k, v) # rest) h =
     (case k of
        StringKey s \<Rightarrow>
          (case v of
             RawMap nested \<Rightarrow>
               (case validateUpdateInternalProviderConfig nested h of
                  (Inl err, h') \<Rightarrow> (Inl err, h')
                | (Inr n, h') \<Rightarrow> range_old new rest (store h' new s (MapRef n)))
           | Value x \<Rightarrow> range_old new rest (store h new s (CValue x)))
      | _ \<Rightarrow> (Inl (KeyTypeError (type_name k)), h))"

fun is_string :: "key \<Rightarrow> bool" where
  "is_string (StringKey _) = True"
| "is_string _ = False"

text \<open>Every key of the tree, at every depth, is a string.\<close>

fun string_keys :: "(key \<times> 'v raw) list \<Rightarrow> bool" where
  "string_keys [] = True"
| "string_keys ((k, v) # rest) =
     (is_string k \<and> (case v of RawMap nested \<Rightarrow> string_keys nested | Value _ \<Rightarrow> True)
      \<and> string_keys rest)"

text \<open>
  The entry lists are those of Go maps: within one map, at every depth, no key occurs
  twice.
\<close>

fun distinct_keys :: "(key \<times> 'v raw) list \<Rightarrow> bool" where
  "distinct_keys [] = True"
| "distinct_keys ((k, v) # rest) =
     (k \<notin> fst ` set rest \<and> (case v of RawMap nested \<Rightarrow> distinct_keys nested | Value _ \<Rightarrow> True)
      \<and> distinct_keys rest)"

text \<open>
  The keys of the tree at every depth, in the order the normalization meets them, and
  the first of them that is not a string.
\<close>

fun all_keys :: "(key \<times> 'v raw) list \<Rightarrow> key list" where
  "all_keys [] = []"
| "all_keys ((k, v) # rest) =
     k # (case v of RawMap nested \<Rightarrow> all_keys nested | Value _ \<Rightarrow> []) @ all_keys rest"

definition first_non_string :: "(key \<times> 'v raw) list \<Rightarrow> key option" where
  "first_non_string old = find (\<lambda>k. \<not> is_string k) (all_keys old)"

text \<open>
  The map at address \<open>a\<close> of the store has exactly the keys and values of the raw map
  \<open>old\<close>, at every depth: its keys are the keys of \<open>old\<close>, an opaque value is stored as
  it is, and under the key of a nested raw map lies the address of a map that has, in
  turn, exactly the keys and values of the nested map.
\<close>

fun same_tree :: "'v heap \<Rightarrow> nat \<Rightarrow> (key \<times> 'v raw) list \<Rightarrow> bool"
  and same_entries :: "'v heap \<Rightarrow> (string \<times> 'v canonical) list \<Rightarrow> (key \<times> 'v raw) list \<Rightarrow> bool"
where
  "same_tree h a old =
     (a < length h \<and> StringKey ` fst ` set (h ! a) = fst ` set old \<and> same_entries h (h ! a) old)"
| "same_entries h cell [] = True"
| "same_entries h cell ((k, v) # rest) =
     ((case k of
         StringKey s \<Rightarrow>
           (case v of
              Value x \<Rightarrow> map_of cell s = Some (CValue x)
            | RawMap nested \<Rightarrow>
                (case map_of cell s of Some (MapRef m) \<Rightarrow> same_tree h m nested | _ \<Rightarrow> False))
       | _ \<Rightarrow> False)
      \<and> same_entries h cell rest)"

text \<open>
  A position of the output tree is a path of keys from its root; \<open>map_at h a p\<close> is the
  address of the map found at position \<open>p\<close> below the map at address \<open>a\<close>.
\<close>

fun map_at :: "'v heap \<Rightarrow> nat \<Rightarrow> string list \<Rightarrow> nat option" where
  "map_at h a [] = Some a"
| "map_at h a (s # p) =
     (if a < length h
      then (case map_of (h ! a) s of Some (MapRef m) \<Rightarrow> map_at h m p | _ \<Rightarrow> None)
      else None)"

text \<open>
  The shape of the store from address \<open>base\<close> on, as the normalization builds it: a
  map refers only to maps allocated after it, inside the store, and no map is referred to
  from two places.
\<close>

definition region_tree :: "nat \<Rightarrow> 'v heap \<Rightarrow> bool" where
  "region_tree base h \<longleftrightarrow>
     (\<forall>a s m. base \<le> a \<and> a < length h \<and> map_of (h ! a) s = Some (MapRef m) \<longrightarrow>
        a < m \<and> m < length h
        \<and> (\<forall>b t. base \<le> b \<and> b < length h \<and> map_of (h ! b) t = Some (MapRef m) \<longrightarrow> b = a \<and> t = s))"

text \<open>What a successful call, and a successful run of its loop, leave in the store.\<close>

definition validate_post :: "(key \<times> 'v raw) list \<Rightarrow> 'v heap \<Rightarrow> 'v heap \<Rightarrow> bool" where
  "validate_post old h h' \<longleftrightarrow>
     length h < length h' \<and> (\<forall>a < length h. h' ! a = h ! a)
     \<and> region_tree (length h) h' \<and> same_tree h' (length h) old"

definition range_post :: "nat \<Rightarrow> (key \<times> 'v raw) list \<Rightarrow> 'v heap \<Rightarrow> 'v heap \<Rightarrow> bool" where
  "range_post new kvs h h' \<longleftrightarrow>
     length h \<le> length h' \<and> (\<forall>a < length h. a \<noteq> new \<longrightarrow> h' ! a = h ! a)
     \<and> region_tree new h'
     \<and> (\<forall>s. StringKey s \<notin> fst ` set kvs \<longrightarrow> map_of (h' ! new) s = map_of (h ! new) s)
     \<and> fst ` set (h' ! new) = fst ` set (h ! new) \<union> {s. StringKey s \<in> fst ` set kvs}
     \<and> same_entries h' (h' ! new) kvs"

text \<open>
  The input of the repository's test \<open>TestValidateUpdateInternalProviderConfig_NestedMap\<close>,
  and the same input with a key that is an integer.
\<close>

datatype scalar = Str string | Num int

definition nested_input :: "(key \<times> scalar raw) list" where
  "nested_input =
     [(StringKey ''name'', Value (Str ''my-provider'')),
      (StringKey ''database'',
         RawMap [(StringKey ''host'', Value (Str ''localhost'')), (StringKey ''port'', Value (Num 5432))])]"

definition int_key_input :: "(key \<times> scalar raw) list" where
  "int_key_input =
     [(StringKey ''name'', Value (Str ''my-provider'')),
      (StringKey ''database'',
         RawMap [(StringKey ''host'', Value (Str ''localhost'')), (IntKey 5432, Value (Str ''port''))])]"

section \<open>Tree-sitter service client (package tree\_sitter)\<close>

subsection \<open>Capabilities of the provider\<close>

text \<open>
  The condition structs whose schema \<open>provider.ToProviderCap\<close> reflects, and the
  evaluator functions a capability is registered with.
\<close>

datatype condition_struct = ReferencedCondition | NoOpCondition | echoCondition | queryCondition

datatype serviceClientFn = Fn_EvaluateReferenced | Fn_EvaluateNoOp | Fn_EvaluateEcho | Fn_EvaluateQuery

record 'c LSPServiceClientCapability =
  Capability :: 'c
  Fn :: serviceClientFn

text \<open>
  \<open>GetGenericServiceClientCapabilities\<close>. The parameters are what the function takes
  from outside this file: \<open>provider.ToProviderCap\<close>, which may fail and may change the
  reflector it is given (the one reflector \<open>r\<close> is passed to all four calls), the
  reflector \<open>openapi3.NewReflector()\<close> returns, and the logger, here the list of the
  calls of \<open>log.Error\<close> with their error and message. Each of the four blocks either
  logs or appends; none returns.
\<close>

definition GetGenericServiceClientCapabilities ::
    "('r \<Rightarrow> condition_struct \<Rightarrow> string \<Rightarrow> (string + 'c) \<times> 'r) \<Rightarrow> 'r \<Rightarrow> (string \<times> string) list
      \<Rightarrow> 'c LSPServiceClientCapability list \<times> (string \<times> string) list" where
  "GetGenericServiceClientCapabilities ToProviderCap NewReflector log0 =
     (let caps = [];
          r = NewReflector;
          (refCap, r) = ToProviderCap r ReferencedCondition ''referenced'';
          (caps, lg) =
            (case refCap of
               Inl e \<Rightarrow> (caps, log0 @ [(e, ''unable to get referenced cap'')])
             | Inr c \<Rightarrow> (caps @ [\<lparr>Capability = c, Fn = Fn_EvaluateReferenced\<rparr>], log0));
          (depCap, r) = ToProviderCap r NoOpCondition ''dependency'';
          (caps, lg) =
            (case depCap of
               Inl e \<Rightarrow> (caps, lg @ [(e, ''unable to get referenced cap'')])
             | Inr c \<Rightarrow> (caps @ [\<lparr>Capability = c, Fn = Fn_EvaluateNoOp\<rparr>], lg));
          (echoCap, r) = ToProviderCap r echoCondition ''echo'';
          (caps, lg) =
            (case echoCap of
               Inl e \<Rightarrow> (caps, lg @ [(e, ''unable to get echo cap'')])
             | Inr c \<Rightarrow> (caps @ [\<lparr>Capability = c, Fn = Fn_EvaluateEcho\<rparr>], lg));
          (queryCap, r) = ToProviderCap r queryCondition ''query'';
          (caps, lg) =
            (case queryCap of
               Inl e \<Rightarrow> (caps, lg @ [(e, ''unable to get query cap'')])
             | Inr c \<Rightarrow> (caps @ [\<lparr>Capability = c, Fn = Fn_EvaluateQuery\<rparr>], lg))
      in (caps, lg))"

text \<open>
  The provider's fixed list of capability constructors, run in order on the one
  reflector: for each, the outcome of its constructor, the evaluator it is registered
  with, and the message logged when it fails.
\<close>

definition constructor_results ::
    "('r \<Rightarrow> condition_struct \<Rightarrow> string \<Rightarrow> (string + 'c) \<times> 'r) \<Rightarrow> 'r
      \<Rightarrow> ((string + 'c) \<times> serviceClientFn \<times> string) list" where
  "constructor_results ToProviderCap r0 =
     (let (res1, r1) = ToProviderCap r0 ReferencedCondition ''referenced'';
          (res2, r2) = ToProviderCap r1 NoOpCondition ''dependency'';
          (res3, r3) = ToProviderCap r2 echoCondition ''echo'';
          (res4, r4) = ToProviderCap r3 queryCondition ''query''
      in [(res1, Fn_EvaluateReferenced, ''unable to get referenced cap''),
          (res2, Fn_EvaluateNoOp, ''unable to get referenced cap''),
          (res3, Fn_EvaluateEcho, ''unable to get echo cap''),
          (res4, Fn_EvaluateQuery, ''unable to get query cap'')])"

text \<open>A constructor that fails for the echo condition only, on a reflector without state.\<close>

definition echo_fails :: "unit \<Rightarrow> condition_struct \<Rightarrow> string \<Rightarrow> (string + string) \<times> unit" where
  "echo_fails r cond name =
     (if cond = echoCondition then (Inl ''schema reflection failed'', r) else (Inr name, r))"

subsection \<open>The query capability\<close>

text \<open>The response of an evaluation and its incidents (package provider).\<close>

record Position =
  Line :: nat
  Character :: nat

record Location =
  StartPosition :: Position
  EndPosition :: Position

record IncidentContext =
  FileURI :: string
  CodeLocation :: "Location option"
  Variables :: "(string \<times> string) list"

record ProviderEvaluateResponse =
  Matched :: bool
  Incidents :: "IncidentContext list"

text \<open>
  A node of a parsed tree, as far as the evaluator reads it: \<^verbatim>\<open>node.StartPosition()\<close>
  and \<^verbatim>\<open>node.EndPosition()\<close>, rows and columns counted from zero. The conversion
  \<^verbatim>\<open>float64(...)\<close> of a row or column is kept as the number itself.
\<close>

record Point =
  Row :: nat
  Column :: nat

record Node =
  NodeStartPosition :: Point
  NodeEndPosition :: Point

text \<open>The decoded condition: \<^verbatim>\<open>cond.Query.Language\<close> and \<^verbatim>\<open>cond.Query.Query\<close>.\<close>

record queryCondition =
  Language :: string
  Query :: string

text \<open>
  The session, \<open>TreeSitterServiceClient\<close>: the workspace root, the grammar of each
  language, the file extension of each language, and the two caches.
\<close>

record 'l TreeSitterServiceClient =
  Location :: string
  TreeSitterLanguages :: "string \<rightharpoonup> 'l"
  ExtMap :: "string \<rightharpoonup> string"
  NodeCache :: "string \<rightharpoonup> Node"
  LastModified :: "string \<rightharpoonup> nat"

text \<open>
  The context of a call, as far as a callee can observe cancellation: whether
  \<^verbatim>\<open>ctx.Err()\<close> is non-nil.
\<close>

record Context =
  Canceled :: bool

text \<open>
  The errors \<open>EvaluateQuery\<close> returns: the wrapped decoding error, the error
  \<^verbatim>\<open>language not supported\<close> (the \<open>UnsupportedLanguageError\<close> of the
  specification), and the error of the file system that stopped the walk.
\<close>

datatype error = UnmarshalError string | LanguageNotSupported | FileError string

text \<open>
  One call of the function given to \<^verbatim>\<open>filepath.Walk\<close>: the path, whether the entry
  is a directory, and the error \<open>Walk\<close> hands over for the entry, if any.
\<close>

record WalkEntry =
  walk_path :: string
  walk_isDir :: bool
  walk_err :: "string option"

text \<open>
  What the evaluator calls outside this repository: the YAML decoder applied to the
  payload, the entries \<^verbatim>\<open>filepath.Walk\<close> visits below a root (in its order, as long
  as the function it is given returns nil), \<^verbatim>\<open>filepath.Ext\<close>, \<^verbatim>\<open>os.ReadFile\<close>, the
  tree-sitter parser, query compiler and capture cursor (the captured node of each match,
  in the order \<^verbatim>\<open>captures.Next()\<close> yields them), and \<^verbatim>\<open>uri.New\<close>.
\<close>

record ('l, 't, 'q) external =
  yaml_Unmarshal :: "string \<Rightarrow> string + queryCondition"
  filepath_Walk :: "string \<Rightarrow> WalkEntry list"
  filepath_Ext :: "string \<Rightarrow> string"
  os_ReadFile :: "string \<Rightarrow> string + string"
  parser_Parse :: "'l \<Rightarrow> string \<Rightarrow> 't"
  NewQuery :: "'l \<Rightarrow> string \<Rightarrow> string + 'q"
  cursor_Captures :: "'q \<Rightarrow> 't \<Rightarrow> string \<Rightarrow> Node list"
  uri_New :: "string \<Rightarrow> string"

text \<open>The incident appended for one captured node of the file at \<open>path\<close>.\<close>

definition incident :: "('l, 't, 'q) external \<Rightarrow> string \<Rightarrow> Node \<Rightarrow> IncidentContext" where
  "incident ext path node =
     (let nodeStartPosition = NodeStartPosition node;
          nodeEndPosition = NodeEndPosition node;
          location = \<lparr>StartPosition = \<lparr>Line = Row nodeStartPosition, Character = Column nodeStartPosition\<rparr>,
                      EndPosition = \<lparr>Line = Row nodeEndPosition, Character = Column nodeEndPosition\<rparr>\<rparr>
      in \<lparr>FileURI = uri_New ext (''file://'' @ path), CodeLocation = Some location, Variables = []\<rparr>)"

text \<open>
  The function literal given to \<^verbatim>\<open>filepath.Walk\<close>. It takes the incidents
  accumulated so far (the captured variable \<open>incidents\<close>) and returns the error it
  returns, with the incidents after the call. The variable \<open>err\<close> is the parameter of the
  function literal; \<^verbatim>\<open>src, err := os.ReadFile(path)\<close> assigns to it, so after the
  check that follows it is nil, and it is this \<open>err\<close> that the branch for a query that
  does not compile returns.
\<close>

definition walkFn ::
    "('l, 't, 'q) external \<Rightarrow> 'l TreeSitterServiceClient \<Rightarrow> queryCondition \<Rightarrow> 'l \<Rightarrow> WalkEntry
      \<Rightarrow> IncidentContext list \<Rightarrow> error option \<times> IncidentContext list" where
  "walkFn ext sc cond tsLanguage entry incidents =
     (case walk_err entry of
        Some e \<Rightarrow> (Some (FileError e), incidents)
      | None \<Rightarrow>
          if walk_isDir entry then (None, incidents)
          else
            (case ExtMap sc (Language cond) of
               None \<Rightarrow> (None, incidents)
             | Some extension \<Rightarrow>
                 if filepath_Ext ext (walk_path entry) \<noteq> extension then (None, incidents)
                 else
                   (case os_ReadFile ext (walk_path entry) of
                      Inl e \<Rightarrow> (Some (FileError e), incidents)
                    | Inr src \<Rightarrow>
                        (let err = None;
                             tree = parser_Parse ext tsLanguage src
                         in case NewQuery ext tsLanguage (Query cond) of
                              Inl queryErr \<Rightarrow> (err, incidents)
                            | Inr query \<Rightarrow>
                                (None,
                                 foldl (\<lambda>incidents node. incidents @ [incident ext (walk_path entry) node])
                                   incidents (cursor_Captures ext query tree src))))))"

text \<open>
  \<^verbatim>\<open>filepath.Walk\<close> on the entries it visits: it calls the function on each entry in
  turn and stops with the first error the function returns. (The function above
  returns no \<^verbatim>\<open>SkipDir\<close> or \<^verbatim>\<open>SkipAll\<close> of its own.)
\<close>

fun Walk :: "(WalkEntry \<Rightarrow> 's \<Rightarrow> error option \<times> 's) \<Rightarrow> WalkEntry list \<Rightarrow> 's \<Rightarrow> error option \<times> 's" where
  "Walk fn [] s = (None, s)"
| "Walk fn (entry # entries) s =
     (case fn entry s of
        (Some e, s') \<Rightarrow> (Some e, s')
      | (None, s') \<Rightarrow> Walk fn entries s')"

text \<open>
  \<open>EvaluateQuery\<close>. The method has a pointer receiver, so the session is returned
  beside the result; the body assigns to none of its fields. The context \<open>ctx\<close> and the
  capability name \<open>cap\<close> are parameters the body does not mention.
\<close>

definition EvaluateQuery ::
    "('l, 't, 'q) external \<Rightarrow> 'l TreeSitterServiceClient \<Rightarrow> Context \<Rightarrow> string \<Rightarrow> string
      \<Rightarrow> (error + ProviderEvaluateResponse) \<times> 'l TreeSitterServiceClient" where
  "EvaluateQuery ext sc ctx cap info =
     (case yaml_Unmarshal ext info of
        Inl e \<Rightarrow> (Inl (UnmarshalError e), sc)
      | Inr cond \<Rightarrow>
          (case TreeSitterLanguages sc (Language cond) of
             None \<Rightarrow> (Inl LanguageNotSupported, sc)
           | Some tsLanguage \<Rightarrow>
               (case Walk (walkFn ext sc cond tsLanguage) (filepath_Walk ext (Location sc)) [] of
                  (Some e, incidents) \<Rightarrow> (Inl e, sc)
                | (None, incidents) \<Rightarrow>
                    if length incidents > 0
                    then (Inr \<lparr>Matched = True, Incidents = incidents\<rparr>, sc)
                    else (Inr \<lparr>Matched = False, Incidents = []\<rparr>, sc))))"

text \<open>
  The incidents one entry adds, and the incidents a walk over all entries of the
  workspace adds.
\<close>

definition entry_incidents ::
    "('l, 't, 'q) external \<Rightarrow> 'l TreeSitterServiceClient \<Rightarrow> queryCondition \<Rightarrow> 'l \<Rightarrow> WalkEntry
      \<Rightarrow> IncidentContext list" where
  "entry_incidents ext sc cond tsLanguage entry = snd (walkFn ext sc cond tsLanguage entry [])"

definition found_incidents ::
    "('l, 't, 'q) external \<Rightarrow> 'l TreeSitterServiceClient \<Rightarrow> queryCondition \<Rightarrow> 'l
      \<Rightarrow> IncidentContext list" where
  "found_incidents ext sc cond tsLanguage =
     concat (map (entry_incidents ext sc cond tsLanguage) (filepath_Walk ext (Location sc)))"

text \<open>
  A session as \<open>Init\<close> leaves it: \<^verbatim>\<open>java\<close> registered in both tables, the caches
  empty. A workspace with one directory and one Java file, a grammar in which the query
  \<^verbatim>\<open>(identifier) @id\<close> compiles and captures one node, and every other query does
  not compile.
\<close>

definition java_client :: "string TreeSitterServiceClient" where
  "java_client =
     \<lparr>Location = ''/work'',
      TreeSitterLanguages = [''java'' \<mapsto> ''tree-sitter-java''],
      ExtMap = [''java'' \<mapsto> ''.java''],
      NodeCache = Map.empty,
      LastModified = Map.empty\<rparr>"

definition one_file :: "string \<Rightarrow> (string, string, string) external" where
  "one_file query_text =
     \<lparr>yaml_Unmarshal = (\<lambda>info. Inr \<lparr>Language = info, Query = query_text\<rparr>),
      filepath_Walk = (\<lambda>root.
         [\<lparr>walk_path = root, walk_isDir = True, walk_err = None\<rparr>,
          \<lparr>walk_path = root @ ''/A.java'', walk_isDir = False, walk_err = None\<rparr>]),
      filepath_Ext = (\<lambda>path. ''.java''),
      os_ReadFile = (\<lambda>path. Inr ''class A {}''),
      parser_Parse = (\<lambda>language src. src),
      NewQuery = (\<lambda>language source.
         if source = ''(identifier) @id'' then Inr source else Inl ''invalid syntax''),
      cursor_Captures = (\<lambda>query tree src.
         [\<lparr>NodeStartPosition = \<lparr>Row = 0, Column = 6\<rparr>, NodeEndPosition = \<lparr>Row = 0, Column = 7\<rparr>\<rparr>]),
      uri_New = (\<lambda>s. s)\<rparr>"

definition A_incident :: IncidentContext where
  "A_incident =
     \<lparr>FileURI = ''file:///work/A.java'',
      CodeLocation = Some \<lparr>StartPosition = \<lparr>Line = 0, Character = 6\<rparr>,
                           EndPosition = \<lparr>Line = 0, Character = 7\<rparr>\<rparr>,
      Variables = []\<rparr>"

section \<open>Properties of the dependency deduplication\<close>

lemma distinct_identities_snoc:
  "distinct_identities (deps @ [dep]) =
     (if identity dep \<in> identity ` set deps then distinct_identities deps
      else distinct_identities deps @ [identity dep])"
  by (simp add: distinct_identities_def)

lemma set_distinct_identities: "set (distinct_identities deps) = identity ` set deps"
  by (simp add: distinct_identities_def)

lemma distinct_distinct_identities: "distinct (distinct_identities deps)"
  by (simp add: distinct_identities_def)

lemma identity_Indirect_update: "identity (d\<lparr>Indirect := b\<rparr>) = identity d"
  by (simp add: identity_def)

lemma tables_invI:
  assumes "map identity out = distinct_identities deps"
    and "\<And>k i. dir k = Some i \<Longrightarrow> i < length out \<and> identity (out ! i) = k \<and> \<not> Indirect (out ! i)"
    and "\<And>k i. ind k = Some i \<Longrightarrow>
        i < length out \<and> identity (out ! i) = k \<and> (dir k = None \<longrightarrow> Indirect (out ! i))"
    and "\<And>k. k \<in> identity ` set deps \<Longrightarrow> dir k \<noteq> None \<or> ind k \<noteq> None"
    and "\<And>i. i < length out \<Longrightarrow>
        Indirect (out ! i) \<longleftrightarrow> (\<forall>x \<in> set deps. identity x = identity (out ! i) \<longrightarrow> Indirect x)"
  shows "tables_inv deps out dir ind"
  unfolding tables_inv_def using assms by blast

lemma dedup_inv_init: "dedup_inv [] dedup_init"
  by (simp add: dedup_inv_def tables_inv_def dedup_init_def distinct_identities_def)

lemma dedup_inv_step:
  assumes "dedup_inv deps st"
  shows "dedup_inv (deps @ [dep]) (dedup_step st dep)"
proof -
  let ?out = "deduped st" and ?k = "identity dep"
  let ?dir = "directIndexOf st" and ?ind = "indirectIndexOf st"
  from assms have keys: "map identity ?out = distinct_identities deps"
    and dir: "\<And>k i. ?dir k = Some i \<Longrightarrow>
        i < length ?out \<and> identity (?out ! i) = k \<and> \<not> Indirect (?out ! i)"
    and ind: "\<And>k i. ?ind k = Some i \<Longrightarrow>
        i < length ?out \<and> identity (?out ! i) = k
        \<and> (?dir k = None \<longrightarrow> Indirect (?out ! i))"
    and seen: "\<And>k. k \<in> identity ` set deps \<Longrightarrow> ?dir k \<noteq> None \<or> ?ind k \<noteq> None"
    and flag: "\<And>i. i < length ?out \<Longrightarrow>
        Indirect (?out ! i) \<longleftrightarrow>
          (\<forall>x \<in> set deps. identity x = identity (?out ! i) \<longrightarrow> Indirect x)"
    unfolding dedup_inv_def tables_inv_def by simp_all
  have dist: "distinct (map identity ?out)"
    by (simp add: keys distinct_distinct_identities)
  have uniq: "\<And>i j. i < length ?out \<Longrightarrow> j < length ?out \<Longrightarrow>
      identity (?out ! i) = identity (?out ! j) \<Longrightarrow> i = j"
    using dist by (auto simp: distinct_conv_nth)
  have mem: "\<And>i. i < length ?out \<Longrightarrow> identity (?out ! i) \<in> identity ` set deps"
  proof -
    fix i assume "i < length ?out"
    then have "identity (?out ! i) \<in> set (map identity ?out)" by simp
    then show "identity (?out ! i) \<in> identity ` set deps"
      by (simp only: keys set_distinct_identities)
  qed
  have skip: "tables_inv (deps @ [dep]) ?out ?dir ?ind"
    if i: "i < length ?out" "identity (?out ! i) = ?k" "Indirect dep \<or> \<not> Indirect (?out ! i)" for i
  proof (rule tables_invI)
    have kin: "?k \<in> identity ` set deps"
      using mem[OF i(1)] i(2) by simp
    show "map identity ?out = distinct_identities (deps @ [dep])"
      using kin keys by (simp add: distinct_identities_snoc)
    show "?dir k \<noteq> None \<or> ?ind k \<noteq> None" if "k \<in> identity ` set (deps @ [dep])" for k
    proof -
      from that kin have "k \<in> identity ` set deps" by auto
      then show ?thesis by (rule seen)
    qed
    show "Indirect (?out ! j) \<longleftrightarrow>
          (\<forall>x \<in> set (deps @ [dep]). identity x = identity (?out ! j) \<longrightarrow> Indirect x)"
      if j: "j < length ?out" for j
    proof (cases "identity (?out ! j) = ?k")
      case True
      with uniq[OF j i(1)] i(2) have "j = i" by simp
      with i(3) flag[OF i(1)] show ?thesis by auto
    next
      case False
      with flag[OF j] show ?thesis by auto
    qed
  qed (use dir ind in \<open>simp_all\<close>)
  show ?thesis
  proof (cases "?dir ?k")
    case (Some i)
    then have st': "dedup_step st dep = st"
      by (simp add: dedup_step_def)
    from dir[OF Some] show ?thesis
      unfolding dedup_inv_def st' by (intro skip[of i]) simp_all
  next
    case None
    note noDirect = None
    show ?thesis
    proof (cases "?ind ?k")
      case (Some i)
      from ind[OF Some] noDirect
      have i: "i < length ?out" "identity (?out ! i) = ?k" "Indirect (?out ! i)"
        by simp_all
      have kin: "?k \<in> identity ` set deps"
        using mem[OF i(1)] i(2) by simp
      show ?thesis
      proof (cases "Indirect dep")
        case True
        then have st': "dedup_step st dep = st"
          by (simp add: dedup_step_def noDirect Some)
        from i True show ?thesis
          unfolding dedup_inv_def st' by (intro skip[of i]) simp_all
      next
        case False
        let ?out' = "?out[i := (?out ! i)\<lparr>Indirect := False\<rparr>]"
        let ?dir' = "?dir(?k \<mapsto> i)"
        from False have st': "dedup_step st dep = st\<lparr>deduped := ?out', directIndexOf := ?dir'\<rparr>"
          by (simp add: dedup_step_def noDirect Some)
        have idn: "identity (?out' ! j) = identity (?out ! j)" if "j < length ?out" for j
          using that by (cases "j = i") (simp_all add: identity_Indirect_update)
        have keys': "map identity ?out' = map identity ?out"
          by (rule nth_equalityI) (simp_all add: idn)
        have other: "?out' ! j = ?out ! j" if "j \<noteq> i" for j
          using that by simp
        have at_i: "\<not> Indirect (?out' ! i)"
          using i(1) by simp
        have "tables_inv (deps @ [dep]) ?out' ?dir' ?ind"
        proof (rule tables_invI)
          show "map identity ?out' = distinct_identities (deps @ [dep])"
            using kin keys keys' by (simp add: distinct_identities_snoc)
        next
          fix k j
          assume "?dir' k = Some j"
          then have "(k = ?k \<and> j = i) \<or> (k \<noteq> ?k \<and> ?dir k = Some j)"
            by (auto split: if_splits)
          then show "j < length ?out' \<and> identity (?out' ! j) = k \<and> \<not> Indirect (?out' ! j)"
          proof
            assume "k = ?k \<and> j = i"
            then show ?thesis using i at_i idn[OF i(1)] by simp
          next
            assume a: "k \<noteq> ?k \<and> ?dir k = Some j"
            with dir[of k j] have j: "j < length ?out" "identity (?out ! j) = k" "\<not> Indirect (?out ! j)"
              by simp_all
            with a i have "j \<noteq> i" by auto
            with j other[of j] show ?thesis by simp
          qed
        next
          fix k j
          assume a: "?ind k = Some j"
          from ind[OF a] have j: "j < length ?out" "identity (?out ! j) = k"
            "?dir k = None \<longrightarrow> Indirect (?out ! j)" by simp_all
          have "?dir' k = None \<longrightarrow> Indirect (?out' ! j)"
          proof
            assume "?dir' k = None"
            then have "k \<noteq> ?k" "?dir k = None" by (auto split: if_splits)
            with j i have "j \<noteq> i" "Indirect (?out ! j)" by auto
            with other[of j] show "Indirect (?out' ! j)" by simp
          qed
          then show "j < length ?out' \<and> identity (?out' ! j) = k
              \<and> (?dir' k = None \<longrightarrow> Indirect (?out' ! j))"
            using j idn[OF j(1)] by simp
        next
          fix k assume "k \<in> identity ` set (deps @ [dep])"
          then have "k = ?k \<or> k \<in> identity ` set deps" by auto
          then show "?dir' k \<noteq> None \<or> ?ind k \<noteq> None"
            using seen[of k] by auto
        next
          fix j assume "j < length ?out'"
          then have j: "j < length ?out" by simp
          show "Indirect (?out' ! j) \<longleftrightarrow>
              (\<forall>x \<in> set (deps @ [dep]). identity x = identity (?out' ! j) \<longrightarrow> Indirect x)"
          proof (cases "j = i")
            case True
            with at_i False i(2) idn[OF i(1)] show ?thesis by auto
          next
            case ji: False
            with uniq[OF j i(1)] i(2) have "identity (?out ! j) \<noteq> ?k" by auto
            with flag[OF j] other[OF ji] show ?thesis by auto
          qed
        qed
        then show ?thesis
          unfolding dedup_inv_def st' by simp
      qed
    next
      case None
      let ?out' = "?out @ [dep]"
      have knew: "?k \<notin> identity ` set deps"
        using seen[of ?k] None noDirect by auto
      have fresh: "identity (?out ! j) \<noteq> ?k" if "j < length ?out" for j
        using mem[OF that] knew by auto
      have keys': "map identity ?out' = distinct_identities (deps @ [dep])"
        using knew keys by (simp add: distinct_identities_snoc)
      have flag': "Indirect (?out' ! j) \<longleftrightarrow>
              (\<forall>x \<in> set (deps @ [dep]). identity x = identity (?out' ! j) \<longrightarrow> Indirect x)"
        if "j < length ?out'" for j
      proof (cases "j < length ?out")
        case True
        with flag[OF True] fresh[OF True] show ?thesis by (auto simp: nth_append)
      next
        case False
        with that have "j = length ?out" by simp
        moreover have "identity x \<noteq> ?k" if "x \<in> set deps" for x
          using knew that by (metis imageI)
        ultimately show ?thesis by auto
      qed
      show ?thesis
      proof (cases "Indirect dep")
        case True
        let ?ind' = "?ind(?k \<mapsto> length ?out)"
        from True have st': "dedup_step st dep = st\<lparr>deduped := ?out', indirectIndexOf := ?ind'\<rparr>"
          by (simp add: dedup_step_def noDirect None)
        have "tables_inv (deps @ [dep]) ?out' ?dir ?ind'"
        proof (rule tables_invI)
          fix k j assume "?dir k = Some j"
          from dir[OF this] show "j < length ?out' \<and> identity (?out' ! j) = k \<and> \<not> Indirect (?out' ! j)"
            by (simp add: nth_append)
        next
          fix k j assume a: "?ind' k = Some j"
          show "j < length ?out' \<and> identity (?out' ! j) = k \<and> (?dir k = None \<longrightarrow> Indirect (?out' ! j))"
          proof (cases "k = ?k")
            case True
            with a have "j = length ?out" by simp
            with True \<open>Indirect dep\<close> show ?thesis by simp
          next
            case False
            with a have "?ind k = Some j" by simp
            from ind[OF this] show ?thesis by (simp add: nth_append)
          qed
        next
          fix k assume "k \<in> identity ` set (deps @ [dep])"
          then have "k = ?k \<or> k \<in> identity ` set deps" by auto
          then show "?dir k \<noteq> None \<or> ?ind' k \<noteq> None"
            using seen[of k] by auto
        qed (use keys' flag' in \<open>simp_all\<close>)
        then show ?thesis
          unfolding dedup_inv_def st' by simp
      next
        case False
        let ?dir' = "?dir(?k \<mapsto> length ?out)"
        from False have st': "dedup_step st dep = st\<lparr>deduped := ?out', directIndexOf := ?dir'\<rparr>"
          by (simp add: dedup_step_def noDirect None)
        have "tables_inv (deps @ [dep]) ?out' ?dir' ?ind"
        proof (rule tables_invI)
          fix k j assume a: "?dir' k = Some j"
          show "j < length ?out' \<and> identity (?out' ! j) = k \<and> \<not> Indirect (?out' ! j)"
          proof (cases "k = ?k")
            case True
            with a have "j = length ?out" by simp
            with True \<open>\<not> Indirect dep\<close> show ?thesis by simp
          next
            case False
            with a have "?dir k = Some j" by simp
            from dir[OF this] show ?thesis by (simp add: nth_append)
          qed
        next
          fix k j assume a: "?ind k = Some j"
          with None have "k \<noteq> ?k" by auto
          with ind[OF a] show "j < length ?out' \<and> identity (?out' ! j) = k
              \<and> (?dir' k = None \<longrightarrow> Indirect (?out' ! j))"
            by (simp add: nth_append)
        next
          fix k assume "k \<in> identity ` set (deps @ [dep])"
          then have "k = ?k \<or> k \<in> identity ` set deps" by auto
          then show "?dir' k \<noteq> None \<or> ?ind k \<noteq> None"
            using seen[of k] by auto
        qed (use keys' flag' in \<open>simp_all\<close>)
        then show ?thesis
          unfolding dedup_inv_def st' by simp
      qed
    qed
  qed
qed

lemma dedup_inv_foldl: "dedup_inv deps (foldl dedup_step dedup_init deps)"
proof (induction deps rule: rev_induct)
  case Nil
  show ?case by (simp add: dedup_inv_init)
next
  case (snoc dep deps)
  then show ?case by (simp add: dedup_inv_step)
qed

lemma dedup_positions_in_range:
  assumes "directIndexOf (foldl dedup_step dedup_init deps) k = Some i
           \<or> indirectIndexOf (foldl dedup_step dedup_init deps) k = Some i"
  shows "i < length (deduped (foldl dedup_step dedup_init deps))"
  using dedup_inv_foldl[of deps] assms unfolding dedup_inv_def tables_inv_def by blast

lemma identity_collision:
  "identity \<lparr>Name = ''ab'', Version = [], ResolvedIdentifier = [], Indirect = True\<rparr>
   = identity \<lparr>Name = ''a'', Version = ''b'', ResolvedIdentifier = [], Indirect = False\<rparr>"
  by (simp add: identity_def)

lemma dedup_file_keys: "map identity (dedup_file deps) = distinct_identities deps"
  using dedup_inv_foldl[of deps] by (simp add: dedup_inv_def tables_inv_def dedup_file_def)

lemma dedup_file_flag:
  assumes "i < length (dedup_file deps)"
  shows "Indirect (dedup_file deps ! i) \<longleftrightarrow>
           (\<forall>x \<in> set deps. identity x = identity (dedup_file deps ! i) \<longrightarrow> Indirect x)"
  using dedup_inv_foldl[of deps] assms by (simp add: dedup_inv_def tables_inv_def dedup_file_def)

lemma dedup_step_fresh:
  assumes "dedup_inv deps st" and "identity dep \<notin> identity ` set deps"
  shows "deduped (dedup_step st dep) = deduped st @ [dep]"
proof -
  let ?k = "identity dep"
  from assms(1) have keys: "map identity (deduped st) = distinct_identities deps"
    and dir: "\<And>i. directIndexOf st ?k = Some i \<Longrightarrow>
        i < length (deduped st) \<and> identity (deduped st ! i) = ?k"
    and ind: "\<And>i. indirectIndexOf st ?k = Some i \<Longrightarrow>
        i < length (deduped st) \<and> identity (deduped st ! i) = ?k"
    unfolding dedup_inv_def tables_inv_def by simp_all
  have absent: "\<not> (i < length (deduped st) \<and> identity (deduped st ! i) = ?k)" for i
  proof
    assume a: "i < length (deduped st) \<and> identity (deduped st ! i) = ?k"
    then have "?k \<in> set (map identity (deduped st))"
      by (metis length_map nth_map nth_mem)
    then have "?k \<in> identity ` set deps"
      by (simp only: keys set_distinct_identities)
    with assms(2) show False by simp
  qed
  have "directIndexOf st ?k = None" "indirectIndexOf st ?k = None"
    using dir ind absent by (metis not_Some_eq)+
  then show ?thesis
    by (simp add: dedup_step_def Let_def)
qed

lemma dedup_file_distinct:
  "distinct (map identity deps) \<Longrightarrow> dedup_file deps = deps"
proof (induction deps rule: rev_induct)
  case Nil
  show ?case by (simp add: dedup_file_def dedup_init_def)
next
  case (snoc dep deps)
  then have IH: "deduped (foldl dedup_step dedup_init deps) = deps"
    and fresh: "identity dep \<notin> identity ` set deps"
    by (simp_all add: dedup_file_def)
  show ?case
    using dedup_step_fresh[OF dedup_inv_foldl fresh] IH by (simp add: dedup_file_def)
qed

lemma dedup_file_idem: "dedup_file (dedup_file deps) = dedup_file deps"
  by (rule dedup_file_distinct) (simp add: dedup_file_keys distinct_distinct_identities)

text \<open>
  Claim C1. For every map of per-file dependency sequences and every identity key that
  occurs in a file's sequence with at least one direct occurrence (\<open>Indirect = False\<close>),
  the deduplicated sequence of that file has exactly one record with that identity key
  (one index \<open>i\<close>, and every index holding the identity equals \<open>i\<close>), that record is
  direct, and \<open>i\<close> is the index of the identity among the distinct identities of the
  input in the order of their first occurrence. The identity key is the concatenation of
  \<open>Name\<close>, \<open>Version\<close> and \<open>ResolvedIdentifier\<close>, as the specification defines it.
\<close>

theorem deduplicateDependencies_direct:
  assumes "dependencies uri = Some deps" and "dep \<in> set deps" and "\<not> Indirect dep"
  shows "\<exists>out i. deduplicateDependencies dependencies uri = Some out
           \<and> length out = length (distinct_identities deps)
           \<and> i < length out
           \<and> distinct_identities deps ! i = identity dep
           \<and> identity (out ! i) = identity dep
           \<and> \<not> Indirect (out ! i)
           \<and> (\<forall>j < length out. identity (out ! j) = identity dep \<longrightarrow> j = i)"
proof -
  let ?out = "dedup_file deps" and ?k = "identity dep"
  have keys: "map identity ?out = distinct_identities deps"
    by (rule dedup_file_keys)
  then have len: "length ?out = length (distinct_identities deps)"
    by (metis length_map)
  have "?k \<in> set (distinct_identities deps)"
    using assms(2) by (simp add: set_distinct_identities)
  then obtain i where i: "i < length (distinct_identities deps)" "distinct_identities deps ! i = ?k"
    by (auto simp: in_set_conv_nth)
  have nth_key: "identity (?out ! j) = distinct_identities deps ! j" if "j < length ?out" for j
    using that keys by (metis nth_map)
  have uniq: "j = i" if "j < length ?out" "identity (?out ! j) = ?k" for j
  proof -
    from that have "j < length (distinct_identities deps)" "distinct_identities deps ! j = ?k"
      using len nth_key[of j] by simp_all
    with i distinct_distinct_identities[of deps] show ?thesis
      by (metis nth_eq_iff_index_eq)
  qed
  have ilen: "i < length ?out"
    using i(1) len by simp
  have key_i: "identity (?out ! i) = ?k"
    using nth_key[OF ilen] i(2) by simp
  have direct: "\<not> Indirect (?out ! i)"
    using dedup_file_flag[OF ilen] key_i assms(2,3) by auto
  have res: "deduplicateDependencies dependencies uri = Some ?out"
    using assms(1) by (simp add: deduplicateDependencies_def)
  have "deduplicateDependencies dependencies uri = Some ?out
           \<and> length ?out = length (distinct_identities deps)
           \<and> i < length ?out
           \<and> distinct_identities deps ! i = ?k
           \<and> identity (?out ! i) = ?k
           \<and> \<not> Indirect (?out ! i)
           \<and> (\<forall>j < length ?out. identity (?out ! j) = ?k \<longrightarrow> j = i)"
    using res len ilen i(2) key_i direct uniq by blast
  then show ?thesis by blast
qed

text \<open>
  The scenario of the test: three records remain and \<open>libB\<close> at index 1 is upgraded.
\<close>

lemma pom_result:
  "deduplicateDependencies pom ''file:///test/pom.xml'' = Some [libA, libB\<lparr>Indirect := False\<rparr>, libC]"
  by (simp add: deduplicateDependencies_def pom_def dedup_file_def dedup_step_def dedup_init_def
      identity_def libA_def libB_def libC_def Let_def)

text \<open>
  The test input is a witness of C1: \<open>libB\<close> occurs indirect at position 1 and direct at
  position 3.
\<close>

theorem deduplicateDependencies_direct_witness:
  "pom ''file:///test/pom.xml'' = Some [libA, libB, libC, libB\<lparr>Indirect := False\<rparr>]
   \<and> libB\<lparr>Indirect := False\<rparr> \<in> set [libA, libB, libC, libB\<lparr>Indirect := False\<rparr>]
   \<and> \<not> Indirect (libB\<lparr>Indirect := False\<rparr>)
   \<and> (\<exists>out i. deduplicateDependencies pom ''file:///test/pom.xml'' = Some out
           \<and> length out = length (distinct_identities [libA, libB, libC, libB\<lparr>Indirect := False\<rparr>])
           \<and> i < length out
           \<and> distinct_identities [libA, libB, libC, libB\<lparr>Indirect := False\<rparr>] ! i
                = identity (libB\<lparr>Indirect := False\<rparr>)
           \<and> identity (out ! i) = identity (libB\<lparr>Indirect := False\<rparr>)
           \<and> \<not> Indirect (out ! i)
           \<and> (\<forall>j < length out. identity (out ! j) = identity (libB\<lparr>Indirect := False\<rparr>) \<longrightarrow> j = i))"
  using deduplicateDependencies_direct[of pom "''file:///test/pom.xml''"
      "[libA, libB, libC, libB\<lparr>Indirect := False\<rparr>]" "libB\<lparr>Indirect := False\<rparr>"]
  by (simp add: pom_def)

text \<open>
  Claim C9. Deduplication is idempotent: applied to its own output it returns, for every
  file key, the sequence it was given.
\<close>

theorem deduplicateDependencies_idempotent:
  "deduplicateDependencies (deduplicateDependencies dependencies) = deduplicateDependencies dependencies"
proof
  fix uri
  show "deduplicateDependencies (deduplicateDependencies dependencies) uri
        = deduplicateDependencies dependencies uri"
    by (cases "dependencies uri") (simp_all add: deduplicateDependencies_def dedup_file_idem)
qed

section \<open>Properties of the configuration normalization\<close>

lemma length_store: "length (store h a s v) = length h"
  by (simp add: store_def)

lemma nth_store:
  "a < length h \<Longrightarrow> store h a s v ! b = (if b = a then AList.update s v (h ! a) else h ! b)"
  by (simp add: store_def)

lemma map_of_store:
  "a < length h \<Longrightarrow> map_of (store h a s v ! a) t = (if t = s then Some v else map_of (h ! a) t)"
  by (simp add: store_def update_conv')

lemma keys_store:
  "a < length h \<Longrightarrow> fst ` set (store h a s v ! a) = insert s (fst ` set (h ! a))"
  by (simp add: store_def dom_update)

lemma same_tree_frame:
  "same_tree h a old \<Longrightarrow> n \<le> a \<Longrightarrow> region_tree n h \<Longrightarrow> length h \<le> length h2 \<Longrightarrow>
     (\<forall>b. n \<le> b \<and> b < length h \<longrightarrow> h2 ! b = h ! b) \<Longrightarrow> same_tree h2 a old"
  and same_entries_frame:
  "same_entries h cell kvs \<Longrightarrow> (\<forall>s m. map_of cell s = Some (MapRef m) \<longrightarrow> n \<le> m) \<Longrightarrow>
     region_tree n h \<Longrightarrow> length h \<le> length h2 \<Longrightarrow>
     (\<forall>b. n \<le> b \<and> b < length h \<longrightarrow> h2 ! b = h ! b) \<Longrightarrow> same_entries h2 cell kvs"
proof (induction h a old and h cell kvs rule: same_tree_same_entries.induct)
  case (1 h a old)
  from "1.prems"(1) have a: "a < length h" and keys: "StringKey ` fst ` set (h ! a) = fst ` set old"
    and ents: "same_entries h (h ! a) old" by simp_all
  have eq: "h2 ! a = h ! a" using a "1.prems"(2,5) by simp
  have up: "\<forall>s m. map_of (h ! a) s = Some (MapRef m) \<longrightarrow> n \<le> m"
    using "1.prems"(2,3) a unfolding region_tree_def by (meson le_trans less_imp_le_nat)
  have "same_entries h2 (h ! a) old"
    using "1.IH" ents up "1.prems"(3,4,5) by blast
  with a keys eq "1.prems"(4) show ?case by simp
next
  case (2 h cell)
  show ?case by simp
next
  case (3 h cell k v rest)
  from "3.prems"(1) obtain s where k: "k = StringKey s"
    by (cases k) simp_all
  from "3.prems"(1) have rest: "same_entries h cell rest" by simp
  have rest2: "same_entries h2 cell rest"
    using "3.IH"(2) rest "3.prems"(2-5) by blast
  show ?case
  proof (cases v)
    case (Value x)
    with "3.prems"(1) k rest2 show ?thesis by simp
  next
    case (RawMap nested)
    with "3.prems"(1) k obtain m where m: "map_of cell s = Some (MapRef m)" "same_tree h m nested"
      by (auto split: option.splits canonical.splits)
    from m(1) "3.prems"(2) have "n \<le> m" by blast
    with "3.IH"(1)[OF k RawMap m(1) refl] m(2) "3.prems"(3-5)
    have "same_tree h2 m nested" by blast
    with k RawMap m(1) rest2 show ?thesis by simp
  qed
qed

lemma region_tree_refs_removed:
  assumes "region_tree base h" and "length h1 = length h"
    and "\<And>a t m. base \<le> a \<Longrightarrow> a < length h \<Longrightarrow> map_of (h1 ! a) t = Some (MapRef m) \<Longrightarrow>
           map_of (h ! a) t = Some (MapRef m)"
  shows "region_tree base h1"
  using assms unfolding region_tree_def by metis

lemma region_tree_store_value:
  assumes "region_tree new h" and "new < length h"
  shows "region_tree new (store h new s (CValue x))"
proof (rule region_tree_refs_removed[OF assms(1)])
  show "length (store h new s (CValue x)) = length h"
    by (rule length_store)
next
  fix a t m
  assume "a < length h" and "map_of (store h new s (CValue x) ! a) t = Some (MapRef m)"
  then show "map_of (h ! a) t = Some (MapRef m)"
    using assms(2) by (cases "a = new") (auto simp: nth_store update_conv' split: if_splits)
qed

lemma region_tree_link:
  assumes R: "region_tree new h" and new: "new < length h" and len: "length h < length h1"
    and frame: "\<forall>a < length h. h1 ! a = h ! a" and R1: "region_tree (length h) h1"
  shows "region_tree new (store h1 new s (MapRef (length h)))"
proof -
  let ?n = "length h"
  let ?h2 = "store h1 new s (MapRef ?n)"
  have old_ref: "a < m \<and> m < ?n"
    if "new \<le> a" "a < ?n" "map_of (h1 ! a) t = Some (MapRef m)" for a t m
  proof -
    from that frame have "map_of (h ! a) t = Some (MapRef m)" by simp
    with R that(1,2) show ?thesis unfolding region_tree_def by blast
  qed
  have old_uniq: "b = a \<and> t' = t"
    if "new \<le> a" "a < ?n" "map_of (h1 ! a) t = Some (MapRef m)"
       "new \<le> b" "b < ?n" "map_of (h1 ! b) t' = Some (MapRef m)" for a b t t' m
  proof -
    from that frame have "map_of (h ! a) t = Some (MapRef m)" "map_of (h ! b) t' = Some (MapRef m)"
      by simp_all
    with R that(1,2,4,5) show ?thesis unfolding region_tree_def by blast
  qed
  have new_ref: "a < m \<and> m < length h1"
    if "?n \<le> a" "a < length h1" "map_of (h1 ! a) t = Some (MapRef m)" for a t m
    using R1 that unfolding region_tree_def by blast
  have new_uniq: "b = a \<and> t' = t"
    if "?n \<le> a" "a < length h1" "map_of (h1 ! a) t = Some (MapRef m)"
       "?n \<le> b" "b < length h1" "map_of (h1 ! b) t' = Some (MapRef m)" for a b t t' m
    using R1 that unfolding region_tree_def by blast
  have new1: "new < length h1" using new len by simp
  have h2_ref: "(a = new \<and> t = s \<and> m = ?n) \<or> map_of (h1 ! a) t = Some (MapRef m)"
    if "a < length h1" "map_of (?h2 ! a) t = Some (MapRef m)" for a t m
    using that new1 by (cases "a = new") (auto simp: nth_store update_conv' split: if_splits)
  have h1_ref: "a < m \<and> m < length h1 \<and> (a < ?n \<longrightarrow> m < ?n) \<and> (?n \<le> a \<longrightarrow> ?n < m)"
    if "new \<le> a" "a < length h1" "map_of (h1 ! a) t = Some (MapRef m)" for a t m
  proof (cases "a < ?n")
    case True
    with old_ref[OF that(1) True that(3)] len show ?thesis by simp
  next
    case False
    with new_ref[OF _ that(2,3)] show ?thesis by simp
  qed
  have h1_uniq: "b = a \<and> t' = t"
    if a: "new \<le> a" "a < length h1" "map_of (h1 ! a) t = Some (MapRef m)"
      and b: "new \<le> b" "b < length h1" "map_of (h1 ! b) t' = Some (MapRef m)" for a b t t' m
  proof -
    from h1_ref[OF a] h1_ref[OF b] have "a < ?n \<longleftrightarrow> b < ?n"
      by (metis leI less_asym' less_trans)
    then show ?thesis
      using old_uniq[OF a(1) _ a(3) b(1) _ b(3)] new_uniq[OF _ a(2,3) _ b(2,3)]
      by (cases "a < ?n") simp_all
  qed
  show ?thesis
    unfolding region_tree_def length_store
  proof (intro allI impI)
    fix a t m
    assume asm: "new \<le> a \<and> a < length h1 \<and> map_of (?h2 ! a) t = Some (MapRef m)"
    then have a: "new \<le> a" "a < length h1" and ref: "map_of (?h2 ! a) t = Some (MapRef m)"
      by simp_all
    from h2_ref[OF a(2) ref]
    show "a < m \<and> m < length h1 \<and>
          (\<forall>b t'. new \<le> b \<and> b < length h1 \<and> map_of (?h2 ! b) t' = Some (MapRef m) \<longrightarrow> b = a \<and> t' = t)"
    proof
      assume link: "a = new \<and> t = s \<and> m = ?n"
      have "b = new \<and> t' = s"
        if b: "new \<le> b" "b < length h1" "map_of (?h2 ! b) t' = Some (MapRef ?n)" for b t'
        using h2_ref[OF b(2,3)] h1_ref[OF b(1,2), of t' ?n] by auto
      with link new len show ?thesis by auto
    next
      assume r: "map_of (h1 ! a) t = Some (MapRef m)"
      have "b = a \<and> t' = t"
        if b: "new \<le> b" "b < length h1" "map_of (?h2 ! b) t' = Some (MapRef m)" for b t'
        using h2_ref[OF b(2,3)]
      proof
        assume "b = new \<and> t' = s \<and> m = ?n"
        with h1_ref[OF a r] show ?thesis by auto
      next
        assume "map_of (h1 ! b) t' = Some (MapRef m)"
        from h1_uniq[OF a r b(1,2) this] show ?thesis .
      qed
      with h1_ref[OF a r] show ?thesis by blast
    qed
  qed
qed

lemma string_keys_fst:
  "string_keys kvs \<Longrightarrow> k \<in> fst ` set kvs \<Longrightarrow> \<exists>s. k = StringKey s"
proof (induction kvs)
  case Nil
  then show ?case by simp
next
  case (Cons e kvs)
  obtain k' v where e: "e = (k', v)" by (cases e)
  with Cons show ?case by (cases k') auto
qed

lemma string_keys_image:
  assumes "string_keys kvs"
  shows "StringKey ` {s. StringKey s \<in> fst ` set kvs} = fst ` set kvs"
proof
  show "StringKey ` {s. StringKey s \<in> fst ` set kvs} \<subseteq> fst ` set kvs" by auto
  show "fst ` set kvs \<subseteq> StringKey ` {s. StringKey s \<in> fst ` set kvs}"
  proof
    fix k assume k: "k \<in> fst ` set kvs"
    from string_keys_fst[OF assms k] obtain s where s: "k = StringKey s" by blast
    with k have "s \<in> {s. StringKey s \<in> fst ` set kvs}" by simp
    with s show "k \<in> StringKey ` {s. StringKey s \<in> fst ` set kvs}"
      by (rule_tac image_eqI)
  qed
qed

lemma region_tree_alloc: "region_tree (length h) (h @ [[]])"
  unfolding region_tree_def by (auto simp: nth_append less_Suc_eq)

lemma validate_correct:
  "string_keys old \<Longrightarrow> distinct_keys old \<Longrightarrow>
     \<exists>h'. validateUpdateInternalProviderConfig old h = (Inr (length h), h') \<and> validate_post old h h'"
  and range_old_correct:
  "string_keys kvs \<Longrightarrow> distinct_keys kvs \<Longrightarrow> new < length h \<Longrightarrow> region_tree new h \<Longrightarrow>
     \<exists>h'. range_old new kvs h = (Inr new, h') \<and> range_post new kvs h h'"
proof (induction old h and new kvs h rule: validateUpdateInternalProviderConfig_range_old.induct)
  case (1 old h)
  let ?new = "length h"
  from "1.IH"[OF "1.prems"] region_tree_alloc[of h]
  obtain h' where run: "range_old ?new old (h @ [[]]) = (Inr ?new, h')"
    and post: "range_post ?new old (h @ [[]]) h'"
    by auto
  from post have len: "length h < length h'"
    and frame: "\<forall>a < length h. h' ! a = h ! a"
    and R: "region_tree ?new h'"
    and keys: "fst ` set (h' ! ?new) = {s. StringKey s \<in> fst ` set old}"
    and ents: "same_entries h' (h' ! ?new) old"
    unfolding range_post_def by (auto simp: nth_append)
  have "StringKey ` fst ` set (h' ! ?new) = fst ` set old"
    unfolding keys by (rule string_keys_image[OF "1.prems"(1)])
  with len ents have "same_tree h' ?new old" by simp
  with len frame R have "validate_post old h h'"
    unfolding validate_post_def by simp
  with run show ?case by simp
next
  case (2 new h)
  then show ?case by (simp add: range_post_def)
next
  case (3 new k v rest h)
  from "3.prems"(1) obtain s where k: "k = StringKey s"
    by (cases k) simp_all
  from "3.prems"(1,2) have rest: "string_keys rest" "distinct_keys rest"
    and s_fresh: "StringKey s \<notin> fst ` set rest"
    using k by simp_all
  show ?case
  proof (cases v)
    case (Value x)
    let ?h1 = "store h new s (CValue x)"
    have new1: "new < length ?h1" using "3.prems"(3) by (simp add: length_store)
    have R1: "region_tree new ?h1"
      by (rule region_tree_store_value[OF "3.prems"(4,3)])
    from "3.IH"(1)[OF k Value rest new1 R1]
    obtain h' where run: "range_old new rest ?h1 = (Inr new, h')"
      and post: "range_post new rest ?h1 h'" by blast
    from post have len: "length h \<le> length h'"
      and frame: "\<forall>a < length h. a \<noteq> new \<longrightarrow> h' ! a = ?h1 ! a"
      and R: "region_tree new h'"
      and other: "\<forall>t. StringKey t \<notin> fst ` set rest \<longrightarrow> map_of (h' ! new) t = map_of (?h1 ! new) t"
      and keys: "fst ` set (h' ! new) = fst ` set (?h1 ! new) \<union> {t. StringKey t \<in> fst ` set rest}"
      and ents: "same_entries h' (h' ! new) rest"
      unfolding range_post_def by (simp_all add: length_store)
    have head: "map_of (h' ! new) s = Some (CValue x)"
      using other s_fresh "3.prems"(3) by (simp add: map_of_store)
    have "range_post new ((k, v) # rest) h h'"
      unfolding range_post_def
    proof (intro conjI allI impI)
      show "length h \<le> length h'" by (rule len)
      show "h' ! a = h ! a" if "a < length h" "a \<noteq> new" for a
        using frame that "3.prems"(3) by (simp add: nth_store)
      show "region_tree new h'" by (rule R)
      show "map_of (h' ! new) t = map_of (h ! new) t"
        if "StringKey t \<notin> fst ` set ((k, v) # rest)" for t
        using that other k "3.prems"(3) by (simp add: map_of_store)
      show "fst ` set (h' ! new) = fst ` set (h ! new) \<union> {t. StringKey t \<in> fst ` set ((k, v) # rest)}"
        using keys k "3.prems"(3) by (auto simp: keys_store)
      show "same_entries h' (h' ! new) ((k, v) # rest)"
        using k Value head ents by simp
    qed
    with run k Value show ?thesis by simp
  next
    case (RawMap nested)
    let ?n = "length h"
    from "3.prems"(1,2) k RawMap have nested: "string_keys nested" "distinct_keys nested"
      by simp_all
    from "3.IH"(2)[OF k RawMap nested]
    obtain h1 where run1: "validateUpdateInternalProviderConfig nested h = (Inr ?n, h1)"
      and post1: "validate_post nested h h1" by blast
    from post1 have len1: "length h < length h1"
      and frame1: "\<forall>a < length h. h1 ! a = h ! a"
      and R1: "region_tree ?n h1"
      and tree1: "same_tree h1 ?n nested"
      unfolding validate_post_def by simp_all
    let ?h2 = "store h1 new s (MapRef ?n)"
    have new1: "new < length h1" using "3.prems"(3) len1 by simp
    have new2: "new < length ?h2" using new1 by (simp add: length_store)
    have R2: "region_tree new ?h2"
      by (rule region_tree_link[OF "3.prems"(4,3) len1 frame1 R1])
    from "3.IH"(3)[OF k RawMap run1[symmetric] refl rest new2 R2]
    obtain h' where run: "range_old new rest ?h2 = (Inr new, h')"
      and post: "range_post new rest ?h2 h'" by blast
    from post have len: "length h1 \<le> length h'"
      and frame: "\<forall>a < length h1. a \<noteq> new \<longrightarrow> h' ! a = ?h2 ! a"
      and R: "region_tree new h'"
      and other: "\<forall>t. StringKey t \<notin> fst ` set rest \<longrightarrow> map_of (h' ! new) t = map_of (?h2 ! new) t"
      and keys: "fst ` set (h' ! new) = fst ` set (?h2 ! new) \<union> {t. StringKey t \<in> fst ` set rest}"
      and ents: "same_entries h' (h' ! new) rest"
      unfolding range_post_def by (simp_all add: length_store)
    have head: "map_of (h' ! new) s = Some (MapRef ?n)"
      using other s_fresh new1 by (simp add: map_of_store)
    have keep: "\<forall>b. ?n \<le> b \<and> b < length h1 \<longrightarrow> h' ! b = h1 ! b"
      using frame new1 "3.prems"(3) by (simp add: nth_store)
    have tree: "same_tree h' ?n nested"
      by (rule same_tree_frame[OF tree1 le_refl R1 len keep])
    have "range_post new ((k, v) # rest) h h'"
      unfolding range_post_def
    proof (intro conjI allI impI)
      show "length h \<le> length h'" using len len1 by simp
      show "h' ! a = h ! a" if "a < length h" "a \<noteq> new" for a
        using frame frame1 that len1 new1 by (simp add: nth_store)
      show "region_tree new h'" by (rule R)
      show "map_of (h' ! new) t = map_of (h ! new) t"
        if "StringKey t \<notin> fst ` set ((k, v) # rest)" for t
        using that other k new1 frame1 "3.prems"(3) by (simp add: map_of_store)
      show "fst ` set (h' ! new) = fst ` set (h ! new) \<union> {t. StringKey t \<in> fst ` set ((k, v) # rest)}"
        using keys k new1 frame1 "3.prems"(3) by (auto simp: keys_store)
      show "same_entries h' (h' ! new) ((k, v) # rest)"
        using k RawMap head ents tree by simp
    qed
    with run run1 k RawMap show ?thesis by simp
  qed
qed

lemma find_app:
  "find P (xs @ ys) = (case find P xs of None \<Rightarrow> find P ys | Some x \<Rightarrow> Some x)"
  by (induction xs) simp_all

lemma first_non_string_Cons:
  "first_non_string ((k, v) # rest) =
     (if \<not> is_string k then Some k
      else case v of
             Value x \<Rightarrow> first_non_string rest
           | RawMap nested \<Rightarrow>
               (case first_non_string nested of Some k' \<Rightarrow> Some k' | None \<Rightarrow> first_non_string rest))"
  by (cases v) (auto simp: first_non_string_def find_app split: option.splits)

lemma validate_outcome:
  "(first_non_string old = None \<longrightarrow>
      (\<exists>h'. validateUpdateInternalProviderConfig old h = (Inr (length h), h')))
   \<and> (\<forall>k. first_non_string old = Some k \<longrightarrow>
      (\<exists>h'. validateUpdateInternalProviderConfig old h = (Inl (KeyTypeError (type_name k)), h')))"
  and range_old_outcome:
  "(first_non_string kvs = None \<longrightarrow> (\<exists>h'. range_old new kvs h = (Inr new, h')))
   \<and> (\<forall>k. first_non_string kvs = Some k \<longrightarrow>
      (\<exists>h'. range_old new kvs h = (Inl (KeyTypeError (type_name k)), h')))"
proof (induction old h and new kvs h rule: validateUpdateInternalProviderConfig_range_old.induct)
  case (1 old h)
  then show ?case by simp
next
  case (2 new h)
  show ?case by (simp add: first_non_string_def)
next
  case (3 new k v rest h)
  show ?case
  proof (cases k)
    case (StringKey s)
    show ?thesis
    proof (cases v)
      case (Value x)
      with StringKey "3.IH"(1)[of s x] show ?thesis
        by (simp add: first_non_string_Cons)
    next
      case (RawMap nested)
      show ?thesis
      proof (cases "first_non_string nested")
        case None
        with "3.IH"(2)[OF StringKey RawMap] obtain h'
          where h': "validateUpdateInternalProviderConfig nested h = (Inr (length h), h')"
          by auto
        from "3.IH"(3)[OF StringKey RawMap h'[symmetric] refl] StringKey RawMap None h'
        show ?thesis by (simp add: first_non_string_Cons)
      next
        case (Some k')
        with "3.IH"(2)[OF StringKey RawMap] obtain h'
          where "validateUpdateInternalProviderConfig nested h = (Inl (KeyTypeError (type_name k')), h')"
          by auto
        with StringKey RawMap Some show ?thesis by (simp add: first_non_string_Cons)
      qed
    qed
  next
    case (IntKey i)
    then show ?thesis by (simp add: first_non_string_Cons)
  next
    case (BoolKey b)
    then show ?thesis by (simp add: first_non_string_Cons)
  qed
qed

lemma map_at_append:
  "map_at h a (p @ q) = (case map_at h a p of None \<Rightarrow> None | Some b \<Rightarrow> map_at h b q)"
  by (induction p arbitrary: a) (auto split: option.splits canonical.splits)

lemma map_at_snoc_Some:
  "map_at h a (p @ [s]) = Some m \<longleftrightarrow>
     (\<exists>b. map_at h a p = Some b \<and> b < length h \<and> map_of (h ! b) s = Some (MapRef m))"
  by (auto simp: map_at_append split: option.splits canonical.splits if_splits)

lemma map_at_range:
  assumes "region_tree base h"
  shows "map_at h base p = Some m \<Longrightarrow> base \<le> m \<and> (p \<noteq> [] \<longrightarrow> base < m \<and> m < length h)"
proof (induction p arbitrary: m rule: rev_induct)
  case Nil
  then show ?case by simp
next
  case (snoc s p)
  from snoc.prems obtain b where b: "map_at h base p = Some b" "b < length h"
    "map_of (h ! b) s = Some (MapRef m)"
    unfolding map_at_snoc_Some by blast
  from snoc.IH[OF b(1)] have "base \<le> b" by simp
  with assms b(2,3) have "b < m \<and> m < length h"
    unfolding region_tree_def by blast
  with \<open>base \<le> b\<close> show ?case by simp
qed

lemma map_at_inj:
  assumes "region_tree base h"
  shows "map_at h base p = Some m \<Longrightarrow> map_at h base q = Some m \<Longrightarrow> p = q"
proof (induction p arbitrary: q m rule: rev_induct)
  case Nil
  then have m: "m = base" by simp
  note q = Nil.prems(2)
  show ?case
  proof (cases q rule: rev_cases)
    case Nil
    then show ?thesis by simp
  next
    case (snoc q' t)
    with map_at_range[OF assms q] m show ?thesis by simp
  qed
next
  case (snoc s p)
  note IH = snoc.IH and pm = snoc.prems(1) and qm = snoc.prems(2)
  from pm obtain a where a: "map_at h base p = Some a" "a < length h"
    "map_of (h ! a) s = Some (MapRef m)"
    unfolding map_at_snoc_Some by blast
  have base_a: "base \<le> a" using map_at_range[OF assms a(1)] by simp
  show ?case
  proof (cases q rule: rev_cases)
    case Nil
    with qm have "m = base" by simp
    with map_at_range[OF assms pm] show ?thesis by simp
  next
    case q: (snoc q' t)
    from qm have "map_at h base (q' @ [t]) = Some m" unfolding q .
    then obtain b where b: "map_at h base q' = Some b" "b < length h"
      "map_of (h ! b) t = Some (MapRef m)"
      unfolding map_at_snoc_Some by blast
    have base_b: "base \<le> b" using map_at_range[OF assms b(1)] by simp
    from assms base_a a(2,3) base_b b(2,3) have "b = a \<and> t = s"
      unfolding region_tree_def by blast
    with IH[OF a(1), of q'] b(1) q show ?thesis by simp
  qed
qed

text \<open>
  Claim C2. For every raw configuration tree whose keys at every depth are strings, the
  normalization returns no error and an output map whose tree has exactly the keys and
  values of the input at every depth (\<open>same_tree\<close>); the store it was given is left as
  it was; every map of the output, at every position, is freshly allocated (its address
  lies beyond the store the call was given); no two distinct positions of the output
  hold the same map; and so an assignment to the map at one position leaves the map at
  every other position unchanged.
\<close>

theorem validate_string_keys:
  assumes "string_keys old" and "distinct_keys old"
  shows "\<exists>new h'. validateUpdateInternalProviderConfig old h = (Inr new, h')
           \<and> same_tree h' new old
           \<and> (\<forall>a < length h. h' ! a = h ! a)
           \<and> (\<forall>p m. map_at h' new p = Some m \<longrightarrow> length h \<le> m \<and> m < length h')
           \<and> (\<forall>p q m. map_at h' new p = Some m \<and> map_at h' new q = Some m \<longrightarrow> p = q)
           \<and> (\<forall>p q m m' s v. map_at h' new p = Some m \<and> map_at h' new q = Some m' \<and> p \<noteq> q \<longrightarrow>
                  store h' m s v ! m' = h' ! m')"
proof -
  from validate_correct[OF assms, of h] obtain h'
    where run: "validateUpdateInternalProviderConfig old h = (Inr (length h), h')"
      and post: "validate_post old h h'" by blast
  let ?new = "length h"
  from post have len: "length h < length h'"
    and frame: "\<forall>a < length h. h' ! a = h ! a"
    and R: "region_tree ?new h'"
    and tree: "same_tree h' ?new old"
    unfolding validate_post_def by simp_all
  have fresh: "length h \<le> m \<and> m < length h'" if "map_at h' ?new p = Some m" for p m
    using map_at_range[OF R that] len by (cases "p = []") (use that in auto)
  have inj: "p = q" if "map_at h' ?new p = Some m" "map_at h' ?new q = Some m" for p q m
    using map_at_inj[OF R that] .
  have indep: "store h' m s v ! m' = h' ! m'"
    if "map_at h' ?new p = Some m" "map_at h' ?new q = Some m'" "p \<noteq> q" for p q m m' s v
  proof -
    from that inj have "m \<noteq> m'" by blast
    moreover from fresh[OF that(1)] have "m < length h'" by simp
    ultimately show ?thesis by (simp add: nth_store)
  qed
  from run tree frame fresh inj indep show ?thesis by blast
qed

text \<open>The test input is a witness of C2.\<close>

theorem validate_string_keys_witness:
  "string_keys nested_input \<and> distinct_keys nested_input
   \<and> (\<exists>new h'. validateUpdateInternalProviderConfig nested_input [] = (Inr new, h')
           \<and> same_tree h' new nested_input
           \<and> (\<forall>a < length ([] :: scalar heap). h' ! a = [] ! a)
           \<and> (\<forall>p m. map_at h' new p = Some m \<longrightarrow> length ([] :: scalar heap) \<le> m \<and> m < length h')
           \<and> (\<forall>p q m. map_at h' new p = Some m \<and> map_at h' new q = Some m \<longrightarrow> p = q)
           \<and> (\<forall>p q m m' s v. map_at h' new p = Some m \<and> map_at h' new q = Some m' \<and> p \<noteq> q \<longrightarrow>
                  store h' m s v ! m' = h' ! m'))"
proof -
  have h: "string_keys nested_input" "distinct_keys nested_input"
    by (simp_all add: nested_input_def)
  from h validate_string_keys[OF h, of "[]"] show ?thesis by blast
qed

text \<open>
  The scenario of the test: \<open>database\<close> is kept, as a map of its own with \<open>host\<close> and
  \<open>port\<close>.
\<close>

lemma nested_input_result:
  "validateUpdateInternalProviderConfig nested_input [] =
     (Inr 0, [[(''name'', CValue (Str ''my-provider'')), (''database'', MapRef 1)],
              [(''host'', CValue (Str ''localhost'')), (''port'', CValue (Num 5432))]])"
  by (simp add: nested_input_def store_def)

text \<open>
  Claim C4. For every raw configuration tree that contains, at any depth, a key that is
  not a string, the normalization fails with a \<open>KeyTypeError\<close> (it names the runtime
  type of the first such key met) and returns no map, hence no partial tree.
\<close>

theorem validate_non_string_key:
  assumes "k \<in> set (all_keys old)" and "\<not> is_string k"
  shows "\<exists>k' h'. first_non_string old = Some k'
           \<and> validateUpdateInternalProviderConfig old h = (Inl (KeyTypeError (type_name k')), h')"
proof -
  from assms obtain k' where "first_non_string old = Some k'"
    unfolding first_non_string_def
    by (cases "find (\<lambda>k. \<not> is_string k) (all_keys old)") (auto simp: find_None_iff)
  with validate_outcome[of old h] show ?thesis by auto
qed

text \<open>A tree with an integer key in its nested map is a witness of C4.\<close>

theorem validate_non_string_key_witness:
  "IntKey 5432 \<in> set (all_keys int_key_input) \<and> \<not> is_string (IntKey 5432)
   \<and> (\<exists>k' h'. first_non_string int_key_input = Some k'
           \<and> validateUpdateInternalProviderConfig int_key_input [] = (Inl (KeyTypeError (type_name k')), h'))"
proof -
  have h: "IntKey 5432 \<in> set (all_keys int_key_input)" "\<not> is_string (IntKey 5432)"
    by (simp_all add: int_key_input_def)
  from h validate_non_string_key[OF h, of "[]"] show ?thesis by blast
qed

lemma int_key_input_result:
  "fst (validateUpdateInternalProviderConfig int_key_input []) = Inl (KeyTypeError ''int'')"
  by (simp add: int_key_input_def store_def)

section \<open>Properties of the tree-sitter service client\<close>

lemma caps_registered:
  "fst (GetGenericServiceClientCapabilities ToProviderCap r0 log0) =
     [\<lparr>Capability = c, Fn = f\<rparr>. (Inr c, f, msg) \<leftarrow> constructor_results ToProviderCap r0]"
  by (simp add: GetGenericServiceClientCapabilities_def constructor_results_def Let_def
      split: prod.splits sum.splits)

lemma caps_logged:
  "snd (GetGenericServiceClientCapabilities ToProviderCap r0 log0) =
     log0 @ [(e, msg). (Inl e, f, msg) \<leftarrow> constructor_results ToProviderCap r0]"
  by (simp add: GetGenericServiceClientCapabilities_def constructor_results_def Let_def
      split: prod.splits sum.splits)

lemma constructors_all_run:
  "map (fst \<circ> snd) (constructor_results ToProviderCap r0) =
     [Fn_EvaluateReferenced, Fn_EvaluateNoOp, Fn_EvaluateEcho, Fn_EvaluateQuery]"
  by (simp add: constructor_results_def Let_def split: prod.splits)

text \<open>
  Claim C8. Whatever the constructors return, all four are run, in the order of the
  provider's fixed list; the capabilities registered are exactly those whose constructor
  succeeded, each with its evaluator, in that order; and the log gains exactly one entry
  for each constructor that failed. So a failing constructor removes its own capability
  and nothing else.
\<close>

theorem capabilities_isolated:
  "map (fst \<circ> snd) (constructor_results ToProviderCap r0) =
     [Fn_EvaluateReferenced, Fn_EvaluateNoOp, Fn_EvaluateEcho, Fn_EvaluateQuery]
   \<and> GetGenericServiceClientCapabilities ToProviderCap r0 log0 =
     ([\<lparr>Capability = c, Fn = f\<rparr>. (Inr c, f, msg) \<leftarrow> constructor_results ToProviderCap r0],
      log0 @ [(e, msg). (Inl e, f, msg) \<leftarrow> constructor_results ToProviderCap r0])"
  using caps_registered[of ToProviderCap r0 log0] caps_logged[of ToProviderCap r0 log0]
    constructors_all_run[of ToProviderCap r0]
  by (simp add: prod_eq_iff)

text \<open>
  With a constructor that fails for the echo condition, the three other capabilities are
  registered and the failure is logged.
\<close>

theorem capabilities_isolated_witness:
  "GetGenericServiceClientCapabilities echo_fails () [] =
     ([\<lparr>Capability = ''referenced'', Fn = Fn_EvaluateReferenced\<rparr>,
       \<lparr>Capability = ''dependency'', Fn = Fn_EvaluateNoOp\<rparr>,
       \<lparr>Capability = ''query'', Fn = Fn_EvaluateQuery\<rparr>],
      [(''schema reflection failed'', ''unable to get echo cap'')])"
  using capabilities_isolated[of echo_fails "()" "[]"]
  by (simp add: constructor_results_def echo_fails_def)

lemma foldl_append_incidents:
  "foldl (\<lambda>incidents node. incidents @ [f node]) incidents nodes = incidents @ map f nodes"
  by (induction nodes arbitrary: incidents) simp_all

lemma walkFn_appends:
  "walkFn ext sc cond tsLanguage entry incidents =
     (fst (walkFn ext sc cond tsLanguage entry []),
      incidents @ entry_incidents ext sc cond tsLanguage entry)"
  by (simp add: walkFn_def entry_incidents_def foldl_append_incidents Let_def
      split: option.splits sum.splits)

lemma Walk_accumulates:
  "Walk (walkFn ext sc cond tsLanguage) entries incidents = (None, incidents') \<Longrightarrow>
     incidents' = incidents @ concat (map (entry_incidents ext sc cond tsLanguage) entries)"
proof (induction entries arbitrary: incidents)
  case Nil
  then show ?case by simp
next
  case (Cons entry entries)
  obtain r where r: "walkFn ext sc cond tsLanguage entry incidents =
      (r, incidents @ entry_incidents ext sc cond tsLanguage entry)"
    using walkFn_appends[of ext sc cond tsLanguage entry incidents] by blast
  show ?case
  proof (cases r)
    case None
    with Cons.prems r
    have "Walk (walkFn ext sc cond tsLanguage) entries
            (incidents @ entry_incidents ext sc cond tsLanguage entry) = (None, incidents')"
      by simp
    from Cons.IH[OF this] show ?thesis by simp
  next
    case (Some e)
    with Cons.prems r show ?thesis by simp
  qed
qed

text \<open>
  Claim C6. Every evaluation that returns a response (and so met no decoding, walk or
  read error) decoded a condition whose language has a grammar, and its response is
  \<open>Matched = True\<close> with the incidents accumulated over the walked entries when there
  is at least one, and \<open>Matched = False\<close> with no incidents otherwise.
\<close>

theorem EvaluateQuery_response:
  assumes "fst (EvaluateQuery ext sc ctx cap info) = Inr resp"
  shows "\<exists>cond tsLanguage.
           yaml_Unmarshal ext info = Inr cond
           \<and> TreeSitterLanguages sc (Language cond) = Some tsLanguage
           \<and> (found_incidents ext sc cond tsLanguage \<noteq> [] \<longrightarrow>
                Matched resp \<and> Incidents resp = found_incidents ext sc cond tsLanguage)
           \<and> (found_incidents ext sc cond tsLanguage = [] \<longrightarrow>
                \<not> Matched resp \<and> Incidents resp = [])"
proof -
  from assms obtain cond where cond: "yaml_Unmarshal ext info = Inr cond"
    by (cases "yaml_Unmarshal ext info") (simp_all add: EvaluateQuery_def)
  from assms cond obtain tsLanguage where lang: "TreeSitterLanguages sc (Language cond) = Some tsLanguage"
    by (cases "TreeSitterLanguages sc (Language cond)") (simp_all add: EvaluateQuery_def)
  obtain r incidents where w:
    "Walk (walkFn ext sc cond tsLanguage) (filepath_Walk ext (Location sc)) [] = (r, incidents)"
    by (cases "Walk (walkFn ext sc cond tsLanguage) (filepath_Walk ext (Location sc)) []")
  from assms cond lang w have r: "r = None"
    by (cases r) (simp_all add: EvaluateQuery_def)
  from Walk_accumulates[OF w[unfolded r]]
  have found: "incidents = found_incidents ext sc cond tsLanguage"
    by (simp add: found_incidents_def)
  from assms cond lang w r found
  have "(found_incidents ext sc cond tsLanguage \<noteq> [] \<longrightarrow>
           Matched resp \<and> Incidents resp = found_incidents ext sc cond tsLanguage)
        \<and> (found_incidents ext sc cond tsLanguage = [] \<longrightarrow> \<not> Matched resp \<and> Incidents resp = [])"
    by (auto simp: EvaluateQuery_def split: if_splits)
  with cond lang show ?thesis by blast
qed

lemma one_file_found:
  "found_incidents (one_file ''(identifier) @id'') java_client
     \<lparr>Language = ''java'', Query = ''(identifier) @id''\<rparr> ''tree-sitter-java'' = [A_incident]"
  by (simp add: found_incidents_def entry_incidents_def walkFn_def one_file_def java_client_def
      incident_def A_incident_def Let_def)

lemma one_file_result:
  "fst (EvaluateQuery (one_file ''(identifier) @id'') java_client ctx ''query'' ''java'') =
     Inr \<lparr>Matched = True, Incidents = [A_incident]\<rparr>"
  by (simp add: EvaluateQuery_def walkFn_def one_file_def java_client_def incident_def
      A_incident_def Let_def)

text \<open>
  The scenario of the specification: one matching file gives one incident, with the
  file's URI and the span of the captured node.
\<close>

theorem EvaluateQuery_response_witness:
  "fst (EvaluateQuery (one_file ''(identifier) @id'') java_client \<lparr>Canceled = False\<rparr> ''query'' ''java'')
     = Inr \<lparr>Matched = True, Incidents = [A_incident]\<rparr>
   \<and> (\<exists>cond tsLanguage.
           yaml_Unmarshal (one_file ''(identifier) @id'') ''java'' = Inr cond
           \<and> TreeSitterLanguages java_client (Language cond) = Some tsLanguage
           \<and> (found_incidents (one_file ''(identifier) @id'') java_client cond tsLanguage \<noteq> [] \<longrightarrow>
                Matched \<lparr>Matched = True, Incidents = [A_incident]\<rparr>
                \<and> Incidents \<lparr>Matched = True, Incidents = [A_incident]\<rparr>
                    = found_incidents (one_file ''(identifier) @id'') java_client cond tsLanguage)
           \<and> (found_incidents (one_file ''(identifier) @id'') java_client cond tsLanguage = [] \<longrightarrow>
                \<not> Matched \<lparr>Matched = True, Incidents = [A_incident]\<rparr>
                \<and> Incidents \<lparr>Matched = True, Incidents = [A_incident]\<rparr> = []))"
proof -
  have h: "fst (EvaluateQuery (one_file ''(identifier) @id'') java_client \<lparr>Canceled = False\<rparr> ''query'' ''java'')
     = Inr \<lparr>Matched = True, Incidents = [A_incident]\<rparr>"
    by (rule one_file_result)
  from h EvaluateQuery_response[OF h] show ?thesis by blast
qed

text \<open>
  Claim C7. When the decoded condition names a language for which the session has no
  grammar registered, the evaluation fails with the error \<^verbatim>\<open>language not supported\<close>
  and returns no response. (\<open>Init\<close> registers a language in the grammar table and in
  the extension table together; the check is on the grammar table.)
\<close>

theorem EvaluateQuery_unsupported_language:
  assumes "yaml_Unmarshal ext info = Inr cond"
    and "TreeSitterLanguages sc (Language cond) = None"
  shows "fst (EvaluateQuery ext sc ctx cap info) = Inl LanguageNotSupported"
  using assms by (simp add: EvaluateQuery_def)

theorem EvaluateQuery_unsupported_language_witness:
  "yaml_Unmarshal (one_file ''(identifier) @id'') ''python''
     = Inr \<lparr>Language = ''python'', Query = ''(identifier) @id''\<rparr>
   \<and> TreeSitterLanguages java_client (Language \<lparr>Language = ''python'', Query = ''(identifier) @id''\<rparr>) = None
   \<and> fst (EvaluateQuery (one_file ''(identifier) @id'') java_client \<lparr>Canceled = False\<rparr> ''query'' ''python'')
       = Inl LanguageNotSupported"
proof -
  have h: "yaml_Unmarshal (one_file ''(identifier) @id'') ''python''
      = Inr \<lparr>Language = ''python'', Query = ''(identifier) @id''\<rparr>"
    "TreeSitterLanguages java_client (Language \<lparr>Language = ''python'', Query = ''(identifier) @id''\<rparr>) = None"
    by (simp_all add: one_file_def java_client_def)
  from h EvaluateQuery_unsupported_language[OF h] show ?thesis by blast
qed

text \<open>
  Claim C10. \<open>EvaluateQuery\<close> leaves the session as it was: the session after the call
  is the session before it, with its grammar table, extension table and both caches;
  and the caches are not consulted, for the result is the same whatever they hold.
\<close>

theorem EvaluateQuery_session_unchanged:
  "snd (EvaluateQuery ext sc ctx cap info) = sc
   \<and> fst (EvaluateQuery ext (sc\<lparr>NodeCache := nodes, LastModified := modified\<rparr>) ctx cap info)
       = fst (EvaluateQuery ext sc ctx cap info)"
proof
  show "snd (EvaluateQuery ext sc ctx cap info) = sc"
    by (simp add: EvaluateQuery_def split: sum.splits option.splits prod.splits)
  have "walkFn ext (sc\<lparr>NodeCache := nodes, LastModified := modified\<rparr>) = walkFn ext sc"
    by (intro ext) (simp add: walkFn_def split: option.splits)
  then show "fst (EvaluateQuery ext (sc\<lparr>NodeCache := nodes, LastModified := modified\<rparr>) ctx cap info)
       = fst (EvaluateQuery ext sc ctx cap info)"
    by (simp add: EvaluateQuery_def split: sum.splits option.splits prod.splits)
qed

text \<open>
  Claim C5 does not hold: the body of \<open>EvaluateQuery\<close> never looks at its context.
  With a context that is already canceled, the walk still visits the file and the call
  returns a response with the incident found.
\<close>

theorem EvaluateQuery_canceled_counterexample:
  "Canceled \<lparr>Canceled = True\<rparr>
   \<and> fst (EvaluateQuery (one_file ''(identifier) @id'') java_client \<lparr>Canceled = True\<rparr> ''query'' ''java'')
       = Inr \<lparr>Matched = True, Incidents = [A_incident]\<rparr>"
  by (simp add: one_file_result)

text \<open>
  Claim C5 as amended: the evaluation does not depend on the context. A call with a
  canceled context walks the same entries and returns the same error or response, and
  leaves the same session, as a call with a live one.
\<close>

theorem EvaluateQuery_ignores_context:
  "EvaluateQuery ext sc ctx cap info = EvaluateQuery ext sc ctx' cap info"
  by (simp add: EvaluateQuery_def)

text \<open>
  Claim C3 is what the code attempts and misses. The branch for a query that does not
  compile returns the variable \<open>err\<close>, which is nil at that point, in place of
  \<open>queryErr\<close>. So the walk goes on, the file is skipped, and with a Java file in the
  workspace and a query that does not compile the evaluation returns a response without
  error.
\<close>

lemma walkFn_compile_failure:
  assumes "NewQuery ext tsLanguage (Query cond) = Inl queryErr"
    and "walk_err entry = None" and "os_ReadFile ext (walk_path entry) = Inr src"
  shows "walkFn ext sc cond tsLanguage entry incidents = (None, incidents)"
  using assms by (simp add: walkFn_def split: option.splits)

theorem EvaluateQuery_compile_failure:
  "NewQuery (one_file ''(('') ''tree-sitter-java'' ''(('' = Inl ''invalid syntax''
   \<and> fst (EvaluateQuery (one_file ''(('') java_client \<lparr>Canceled = False\<rparr> ''query'' ''java'')
       = Inr \<lparr>Matched = False, Incidents = []\<rparr>"
  by (simp add: EvaluateQuery_def walkFn_def one_file_def java_client_def Let_def)

end
